theory Spec2Isabelle
  imports Main "HOL-Library.AList" "HOL-Library.Monad_Syntax"
begin

section \<open>The access graph (modules/access\_graph.py)\<close>

text \<open>
  The six rights of the enumeration \<open>AccessRight\<close>.
\<close>

datatype AccessRight = READ | WRITE | EXECUTE | TAKE | GRANT | OWN

text \<open>
  Python containers. A \<open>dict\<close> is an association list in insertion order:
  \<open>k in d\<close> is \<open>map_of d k \<noteq> None\<close>, \<open>d[k] = v\<close> is \<open>AList.update k v d\<close>
  (in place for a known key, appended for a new one), a mutation of the value stored
  under \<open>k\<close> is \<open>AList.map_entry k f d\<close>, and \<open>del d[k]\<close> is \<open>AList.delete k d\<close>.
  A \<open>set\<close> is the list of its elements in iteration order: \<open>s.add(x)\<close> is
  \<open>List.insert x s\<close>, \<open>s.discard(x)\<close> is \<open>removeAll x s\<close>, \<open>not s\<close> is \<open>s = []\<close>,
  and what a set contains is read with \<open>set\<close>.
  A subscript \<open>d[k]\<close> on a missing key raises \<open>KeyError\<close>.
\<close>

datatype error = KeyError

type_synonym edge = "string \<times> string"

record AccessGraph =
  graph :: "(edge \<times> AccessRight list) list"
  subject_edges :: "(string \<times> string list) list"
  object_edges :: "(string \<times> string list) list"

definition init_graph :: AccessGraph where
  "init_graph = \<lparr>graph = [], subject_edges = [], object_edges = []\<rparr>"

definition normalize_edge :: "string \<Rightarrow> string \<Rightarrow> edge" where
  "normalize_edge subject_id object_id = (subject_id, object_id)"

definition add_right :: "AccessGraph \<Rightarrow> string \<Rightarrow> string \<Rightarrow> AccessRight \<Rightarrow> AccessGraph" where
  "add_right g subject_id object_id right =
     (let edge = normalize_edge subject_id object_id;
          gr0 = (if map_of (graph g) edge = None then AList.update edge [] (graph g)
                 else graph g);
          gr1 = AList.map_entry edge (List.insert right) gr0;
          se0 = (if map_of (subject_edges g) subject_id = None
                 then AList.update subject_id [] (subject_edges g)
                 else subject_edges g);
          se1 = AList.map_entry subject_id (List.insert object_id) se0;
          oe0 = (if map_of (object_edges g) object_id = None
                 then AList.update object_id [] (object_edges g)
                 else object_edges g);
          oe1 = AList.map_entry object_id (List.insert subject_id) oe0
      in g\<lparr>graph := gr1, subject_edges := se1, object_edges := oe1\<rparr>)"

definition remove_right ::
  "AccessGraph \<Rightarrow> string \<Rightarrow> string \<Rightarrow> AccessRight \<Rightarrow> error + AccessGraph" where
  "remove_right g subject_id object_id right =
     (let edge = normalize_edge subject_id object_id in
      if map_of (graph g) edge \<noteq> None then
        (let gr1 = AList.map_entry edge (removeAll right) (graph g) in
         if map_of gr1 edge = Some [] then
           (if map_of (subject_edges g) subject_id = None then Inl KeyError
            else if map_of (object_edges g) object_id = None then Inl KeyError
            else Inr (g\<lparr>graph := AList.delete edge gr1,
                        subject_edges :=
                          AList.map_entry subject_id (removeAll object_id) (subject_edges g),
                        object_edges :=
                          AList.map_entry object_id (removeAll subject_id) (object_edges g)\<rparr>))
         else Inr (g\<lparr>graph := gr1\<rparr>))
      else Inr g)"

definition has_right :: "AccessGraph \<Rightarrow> string \<Rightarrow> string \<Rightarrow> AccessRight \<Rightarrow> bool" where
  "has_right g subject_id object_id right =
     (case map_of (graph g) (normalize_edge subject_id object_id) of
        None \<Rightarrow> False
      | Some rights \<Rightarrow> right \<in> set rights)"

definition get_rights :: "AccessGraph \<Rightarrow> string \<Rightarrow> string \<Rightarrow> AccessRight list" where
  "get_rights g subject_id object_id =
     (case map_of (graph g) (normalize_edge subject_id object_id) of
        None \<Rightarrow> []
      | Some rights \<Rightarrow> rights)"

text \<open>
  \<open>rights.intersection(other)\<close>: the elements of \<open>rights\<close> that \<open>other\<close> contains.
\<close>

definition intersection :: "'a list \<Rightarrow> 'a list \<Rightarrow> 'a list" where
  "intersection rights other = filter (\<lambda>r. r \<in> set other) rights"

text \<open>
  \<open>for right in rights: self.add_right(subject_id, object_id, right)\<close>, the loop shared
  by \<open>take\<close>, \<open>grant\<close> and \<open>create\<close>.
\<close>

definition add_rights :: "AccessGraph \<Rightarrow> string \<Rightarrow> string \<Rightarrow> AccessRight list \<Rightarrow> AccessGraph" where
  "add_rights g subject_id object_id rights =
     foldl (\<lambda>h right. add_right h subject_id object_id right) g rights"

text \<open>\<open>AccessGraph.take\<close>; the name \<open>take\<close> is a list function of HOL.\<close>

definition take_op ::
  "AccessGraph \<Rightarrow> string \<Rightarrow> string \<Rightarrow> string \<Rightarrow> AccessRight list \<Rightarrow> bool \<times> AccessGraph" where
  "take_op g subject_id source_object_id target_object_id rights =
     (if \<not> has_right g subject_id source_object_id TAKE then (False, g)
      else
        (let source_rights = get_rights g source_object_id target_object_id in
         if source_rights = [] then (False, g)
         else
           (let available_rights = intersection rights source_rights
            in (available_rights \<noteq> [],
                add_rights g subject_id target_object_id available_rights))))"

definition grant ::
  "AccessGraph \<Rightarrow> string \<Rightarrow> string \<Rightarrow> string \<Rightarrow> AccessRight list \<Rightarrow> bool \<times> AccessGraph" where
  "grant g subject_id source_object_id target_subject_id rights =
     (if \<not> has_right g subject_id source_object_id GRANT then (False, g)
      else
        (let subject_rights = get_rights g subject_id source_object_id in
         if subject_rights = [] then (False, g)
         else
           (let available_rights = intersection rights subject_rights
            in (available_rights \<noteq> [],
                add_rights g target_subject_id source_object_id available_rights))))"

definition all_rights :: "AccessRight list" where
  "all_rights = [READ, WRITE, EXECUTE, TAKE, GRANT, OWN]"

text \<open>\<open>AccessGraph.create\<close>; an omitted \<open>rights\<close> argument is \<open>None\<close>.\<close>

definition create ::
  "AccessGraph \<Rightarrow> string \<Rightarrow> string \<Rightarrow> AccessRight list option \<Rightarrow> bool \<times> AccessGraph" where
  "create g subject_id object_id rights =
     (let rights' = (case rights of None \<Rightarrow> all_rights | Some rs \<Rightarrow> rs)
      in (True, add_rights g subject_id object_id rights'))"

text \<open>
  \<open>AccessGraph.remove\<close>: \<open>remove_right\<close> for each right in turn; an exception ends
  the loop.
\<close>

fun remove_op ::
  "AccessGraph \<Rightarrow> string \<Rightarrow> string \<Rightarrow> AccessRight list \<Rightarrow> error + AccessGraph" where
  "remove_op g subject_id object_id [] = Inr g"
| "remove_op g subject_id object_id (right # rights) =
     (case remove_right g subject_id object_id right of
        Inl e \<Rightarrow> Inl e
      | Inr g' \<Rightarrow> remove_op g' subject_id object_id rights)"

definition get_subject_objects :: "AccessGraph \<Rightarrow> string \<Rightarrow> string list" where
  "get_subject_objects g subject_id =
     (case map_of (subject_edges g) subject_id of None \<Rightarrow> [] | Some objs \<Rightarrow> objs)"

definition get_object_subjects :: "AccessGraph \<Rightarrow> string \<Rightarrow> string list" where
  "get_object_subjects g object_id =
     (case map_of (object_edges g) object_id of None \<Rightarrow> [] | Some subjs \<Rightarrow> subjs)"

section \<open>The security kernel (modules/security\_kernel.py)\<close>

text \<open>
  The take loop of \<open>_dfs_search\<close>. \<open>search\<close> stands for the recursive call
  \<open>self._dfs_search(intermediate_object, target_object, required_right, visited.copy())\<close>.
  \<open>Some True\<close>: the loop returned \<open>True\<close>; \<open>Some False\<close>: the loop ran to its end;
  \<open>None\<close>: a recursive call did not return.
\<close>

primrec take_loop ::
  "(string \<Rightarrow> bool option) \<Rightarrow> AccessGraph \<Rightarrow> string \<Rightarrow> string \<Rightarrow> AccessRight \<Rightarrow>
   string list \<Rightarrow> bool option" where
  "take_loop search g current_subject target_object required_right [] = Some False"
| "take_loop search g current_subject target_object required_right (intermediate_object # rest) =
     (if \<not> has_right g current_subject intermediate_object TAKE
      then take_loop search g current_subject target_object required_right rest
      else if has_right g intermediate_object target_object required_right then Some True
      else do {
        found \<leftarrow> search intermediate_object;
        if found then Some True
        else take_loop search g current_subject target_object required_right rest
      })"

lemma take_loop_mono [partial_function_mono]:
  assumes "\<And>x. mono_option (\<lambda>f. C f x)"
  shows "mono_option (\<lambda>f. take_loop (C f) g current_subject target_object required_right xs)"
  using assms by (induct xs) (auto intro!: partial_function_mono)

text \<open>
  \<open>all_objects = set(); for (s, o), rights in self.access_graph.graph.items():
  all_objects.add(o)\<close>
\<close>

definition all_objects :: "AccessGraph \<Rightarrow> string list" where
  "all_objects g = foldl (\<lambda>acc ((s, ob), rights). List.insert ob acc) [] (graph g)"

text \<open>
  The grant loops of \<open>_dfs_search\<close>: two nested \<open>for\<close> loops that return \<open>True\<close> at the
  first pair that passes both tests, and fall through to \<open>return False\<close> otherwise.
\<close>

definition grant_loop :: "AccessGraph \<Rightarrow> string \<Rightarrow> AccessRight \<Rightarrow> bool" where
  "grant_loop g target_object required_right =
     list_ex (\<lambda>intermediate_object.
        list_ex (\<lambda>grant_subject.
            has_right g grant_subject intermediate_object GRANT \<and>
            has_right g intermediate_object target_object required_right)
          (get_object_subjects g intermediate_object))
       (all_objects g)"

text \<open>
  \<open>_dfs_search\<close>. The recursion is not structural, so the result is an option: \<open>None\<close> is
  a search that does not return. \<open>visited\<close> is a fresh set at the top call and a copy at
  every recursive call, so \<open>visited.add\<close> is seen by the callee only. The bound that
  the interpreter puts on the depth of recursion is a resource limit outside the model.
\<close>

partial_function (option) dfs_search ::
  "AccessGraph \<Rightarrow> string \<Rightarrow> string \<Rightarrow> AccessRight \<Rightarrow> string list \<Rightarrow> bool option" where
  "dfs_search g current_subject target_object required_right visited =
     (if current_subject \<in> set visited then Some False
      else
        (let visited' = List.insert current_subject visited in
         if has_right g current_subject target_object required_right then Some True
         else do {
           found \<leftarrow> take_loop
              (\<lambda>intermediate_object.
                  dfs_search g intermediate_object target_object required_right visited')
              g current_subject target_object required_right
              (get_subject_objects g current_subject);
           if found then Some True
           else Some (grant_loop g target_object required_right)
         }))"

definition find_access_path ::
  "AccessGraph \<Rightarrow> string \<Rightarrow> string \<Rightarrow> AccessRight \<Rightarrow> bool option" where
  "find_access_path g subject_id object_id required_right =
     dfs_search g subject_id object_id required_right []"

definition can_access :: "AccessGraph \<Rightarrow> string \<Rightarrow> string \<Rightarrow> AccessRight \<Rightarrow> bool option" where
  "can_access g subject_id object_id required_right =
     (if has_right g subject_id object_id required_right then Some True
      else find_access_path g subject_id object_id required_right)"

text \<open>
  \<open>get_accessible_objects\<close>: every identifier of an edge, as subject or as object, is
  tried with \<open>can_access\<close>; those that pass are appended to the result.
\<close>

definition all_nodes :: "AccessGraph \<Rightarrow> string list" where
  "all_nodes g =
     foldl (\<lambda>acc ((s, ob), rights). List.insert s (List.insert ob acc)) [] (graph g)"

fun accessible_loop ::
  "AccessGraph \<Rightarrow> string \<Rightarrow> AccessRight \<Rightarrow> string list \<Rightarrow> string list \<Rightarrow> string list option" where
  "accessible_loop g subject_id required_right accessible [] = Some accessible"
| "accessible_loop g subject_id required_right accessible (object_id # rest) =
     do {
       ok \<leftarrow> can_access g subject_id object_id required_right;
       accessible_loop g subject_id required_right
         (if ok then accessible @ [object_id] else accessible) rest
     }"

definition get_accessible_objects ::
  "AccessGraph \<Rightarrow> string \<Rightarrow> AccessRight \<Rightarrow> string list option" where
  "get_accessible_objects g subject_id required_right =
     accessible_loop g subject_id required_right [] (all_nodes g)"

definition check_right :: "AccessGraph \<Rightarrow> string \<Rightarrow> string \<Rightarrow> AccessRight \<Rightarrow> bool option" where
  "check_right g subject_id object_id right = can_access g subject_id object_id right"

section \<open>Object registry and object deletion (modules/objects.py, modules/operations.py)\<close>

text \<open>
  The dictionary stored for an object, with its keys as fields.
\<close>

record ObjectInfo =
  obj_id :: string
  obj_name :: string
  obj_type :: string
  obj_owner :: string
  obj_parent_id :: "string option"
  obj_created_at :: string

record ObjectIdentifier =
  objects :: "(string \<times> ObjectInfo) list"
  name_to_id :: "(string \<times> string) list"

definition get_object :: "ObjectIdentifier \<Rightarrow> string \<Rightarrow> error + ObjectInfo option" where
  "get_object oi identifier =
     (case map_of (objects oi) identifier of
        Some obj \<Rightarrow> Inr (Some obj)
      | None \<Rightarrow>
          (case map_of (name_to_id oi) identifier of
             Some object_id \<Rightarrow>
               (case map_of (objects oi) object_id of
                  None \<Rightarrow> Inl KeyError
                | Some obj \<Rightarrow> Inr (Some obj))
           | None \<Rightarrow> Inr None))"

definition get_object_id :: "ObjectIdentifier \<Rightarrow> string \<Rightarrow> string option" where
  "get_object_id oi identifier =
     (if map_of (objects oi) identifier \<noteq> None then Some identifier
      else map_of (name_to_id oi) identifier)"

text \<open>
  \<open>ObjectIdentifier.delete_object\<close>. \<open>not object_id\<close> holds for \<open>None\<close> and for the
  empty string.
\<close>

definition registry_delete_object ::
  "ObjectIdentifier \<Rightarrow> string \<Rightarrow> error + bool \<times> ObjectIdentifier" where
  "registry_delete_object oi identifier =
     (case get_object_id oi identifier of
        None \<Rightarrow> Inr (False, oi)
      | Some object_id \<Rightarrow>
          if object_id = [] then Inr (False, oi)
          else
            (case map_of (objects oi) object_id of
               None \<Rightarrow> Inl KeyError
             | Some obj \<Rightarrow>
                 (let name = obj_name obj;
                      objs = AList.delete object_id (objects oi);
                      names = (if map_of (name_to_id oi) name \<noteq> None
                               then AList.delete name (name_to_id oi)
                               else name_to_id oi)
                  in Inr (True, oi\<lparr>objects := objs, name_to_id := names\<rparr>))))"

text \<open>
  \<open>OperationsModule\<close>. Its \<open>access_graph\<close> and the graph of its \<open>security_kernel\<close> are
  one object, so one field stands for both.
\<close>

record OperationsModule =
  object_identifier :: ObjectIdentifier
  access_graph :: AccessGraph
  file_contents :: "(string \<times> string) list"

text \<open>
  \<open>OperationsModule.delete_object\<close>. The edges whose object is \<open>object_id\<close> are collected
  and then deleted from the dictionary \<open>graph\<close> itself.
\<close>

definition delete_object ::
  "OperationsModule \<Rightarrow> string \<Rightarrow> string \<Rightarrow> (error + bool \<times> OperationsModule) option" where
  "delete_object m subject_id object_id =
     (case get_object (object_identifier m) object_id of
        Inl e \<Rightarrow> Some (Inl e)
      | Inr None \<Rightarrow> Some (Inr (False, m))
      | Inr (Some obj) \<Rightarrow>
          do {
            allowed \<leftarrow>
              (if obj_owner obj \<noteq> subject_id
               then can_access (access_graph m) subject_id object_id OWN
               else Some True);
            if \<not> allowed then Some (Inr (False, m))
            else
              (let fc = (if map_of (file_contents m) object_id \<noteq> None
                         then AList.delete object_id (file_contents m)
                         else file_contents m);
                   edges_to_remove =
                     map fst (filter (\<lambda>((s, ob), rights). ob = object_id)
                                (graph (access_graph m)));
                   gr = foldl (\<lambda>d e. AList.delete e d) (graph (access_graph m)) edges_to_remove;
                   m1 = m\<lparr>file_contents := fc, access_graph := (access_graph m)\<lparr>graph := gr\<rparr>\<rparr>
               in case registry_delete_object (object_identifier m1) object_id of
                    Inl e \<Rightarrow> Some (Inl e)
                  | Inr (b, oi) \<Rightarrow> Some (Inr (b, m1\<lparr>object_identifier := oi\<rparr>)))
          })"

section \<open>Graph states and the properties stated about them\<close>

text \<open>
  The graph states the program can be in: the empty graph of \<open>__init__\<close>, changed by
  the mutators of \<open>AccessGraph\<close> and by \<open>OperationsModule.delete_object\<close>. A
  \<open>remove_right\<close> that raises leaves no state to continue from.
\<close>

inductive reachable :: "AccessGraph \<Rightarrow> bool" where
  init: "reachable init_graph"
| add_right: "reachable g \<Longrightarrow> reachable (add_right g s ob r)"
| remove_right: "reachable g \<Longrightarrow> remove_right g s ob r = Inr g' \<Longrightarrow> reachable g'"
| take_op: "reachable g \<Longrightarrow> reachable (snd (take_op g s src tgt rs))"
| grant: "reachable g \<Longrightarrow> reachable (snd (grant g s src tgt rs))"
| create: "reachable g \<Longrightarrow> reachable (snd (create g s ob rso))"
| delete_object:
    "reachable (access_graph m) \<Longrightarrow> delete_object m s ob = Some (Inr (b, m')) \<Longrightarrow>
     reachable (access_graph m')"

text \<open>
  Every stored edge is listed in both indices, and no stored edge has an empty set of
  rights.
\<close>

definition indexed :: "AccessGraph \<Rightarrow> bool" where
  "indexed g =
     (\<forall>s ob. map_of (graph g) (s, ob) \<noteq> None \<longrightarrow>
        ob \<in> set (get_subject_objects g s) \<and> s \<in> set (get_object_subjects g ob))"

definition nonempty_edges :: "AccessGraph \<Rightarrow> bool" where
  "nonempty_edges g = (\<forall>e. map_of (graph g) e \<noteq> Some [])"

text \<open>
  The two indices mirror the edge map: \<open>ob\<close> is listed for \<open>s\<close>, and \<open>s\<close> for \<open>ob\<close>,
  exactly when the edge \<open>(s, ob)\<close> has a non-empty set of rights.
\<close>

definition mirror :: "AccessGraph \<Rightarrow> bool" where
  "mirror g =
     (\<forall>s ob. (ob \<in> set (get_subject_objects g s) \<longleftrightarrow> get_rights g s ob \<noteq> []) \<and>
             (s \<in> set (get_object_subjects g ob) \<longleftrightarrow> get_rights g s ob \<noteq> []))"

text \<open>
  A graph made of two disjoint subgraphs: no stored edge joins an identifier of \<open>part\<close>
  with one outside it.
\<close>

definition disjoint_subgraphs :: "AccessGraph \<Rightarrow> string list \<Rightarrow> bool" where
  "disjoint_subgraphs g part =
     list_all (\<lambda>((s, ob), rights). (s \<in> set part) = (ob \<in> set part)) (graph g)"

section \<open>The measure of the search\<close>

text \<open>
  The identifiers that some entry of \<open>subject_edges\<close> lists, and the number of
  identifiers, among these and the current subject, that a search has not visited yet.
\<close>

definition index_nodes :: "AccessGraph \<Rightarrow> string set" where
  "index_nodes g = (\<Union>(k, objs) \<in> set (subject_edges g). set objs)"

definition unvisited :: "AccessGraph \<Rightarrow> string \<Rightarrow> string list \<Rightarrow> nat" where
  "unvisited g current_subject visited =
     card (insert current_subject (index_nodes g) - set visited)"

text \<open>
  \<open>remove_right\<close> empties the edge: the edge is stored and \<open>right\<close> is all it holds.
\<close>

definition emptied :: "AccessGraph \<Rightarrow> string \<Rightarrow> string \<Rightarrow> AccessRight \<Rightarrow> bool" where
  "emptied g s ob r = (\<exists>rs. map_of (graph g) (s, ob) = Some rs \<and> removeAll r rs = [])"

section \<open>Dictionaries and the effect of \<open>add_right\<close>\<close>

lemma map_entry_id:
  "map_of al k = Some v \<Longrightarrow> f v = v \<Longrightarrow> AList.map_entry k f al = al"
  by (induct al) (auto split: if_splits)

lemma graph_add_right:
  "map_of (graph (add_right g s ob r)) e =
     (if e = (s, ob) then Some (List.insert r (get_rights g s ob)) else map_of (graph g) e)"
  by (auto simp: add_right_def get_rights_def normalize_edge_def Let_def map_of_map_entry update_conv'
      split: option.splits)

lemma get_rights_add_right:
  "get_rights (add_right g s ob r) s' ob' =
     (if (s', ob') = (s, ob) then List.insert r (get_rights g s ob) else get_rights g s' ob')"
  unfolding get_rights_def[of "add_right g s ob r"] normalize_edge_def graph_add_right
  by (simp add: get_rights_def normalize_edge_def)

lemma has_right_add_right:
  "has_right (add_right g s ob r) s' ob' r' =
     ((s', ob') = (s, ob) \<and> r' = r \<or> has_right g s' ob' r')"
  unfolding has_right_def[of "add_right g s ob r"] normalize_edge_def graph_add_right
  by (auto simp add: has_right_def get_rights_def normalize_edge_def split: option.splits)

lemma get_subject_objects_add_right:
  "get_subject_objects (add_right g s ob r) s' =
     (if s' = s then List.insert ob (get_subject_objects g s) else get_subject_objects g s')"
  by (auto simp: add_right_def get_subject_objects_def Let_def map_of_map_entry update_conv'
      split: option.splits)

lemma get_object_subjects_add_right:
  "get_object_subjects (add_right g s ob r) ob' =
     (if ob' = ob then List.insert s (get_object_subjects g ob) else get_object_subjects g ob')"
  by (auto simp: add_right_def get_object_subjects_def Let_def map_of_map_entry update_conv'
      split: option.splits)

lemma has_right_get_rights: "has_right g s ob r \<longleftrightarrow> r \<in> set (get_rights g s ob)"
  by (simp add: has_right_def get_rights_def split: option.splits)

lemma has_right_stored:
  "has_right g s ob r \<Longrightarrow> \<exists>rs. ((s, ob), rs) \<in> set (graph g) \<and> map_of (graph g) (s, ob) = Some rs"
  by (auto simp: has_right_def normalize_edge_def split: option.splits dest: map_of_SomeD)

lemmas graph_eval = add_right_def init_graph_def normalize_edge_def has_right_def get_rights_def
  get_subject_objects_def get_object_subjects_def add_rights_def create_def all_rights_def

text \<open>
  Claim C10. \<open>addRight(s, o, r)\<close> is idempotent: called twice in succession it leaves
  the same set of rights on the edge \<open>(s, o)\<close>, and the same whole graph with both
  indices, as called once.
\<close>

theorem add_right_idempotent:
  "add_right (add_right g s ob r) s ob r = add_right g s ob r \<and>
   get_rights (add_right (add_right g s ob r) s ob r) s ob = get_rights (add_right g s ob r) s ob"
proof -
  let ?h = "add_right g s ob r"
  have 1: "map_of (graph ?h) (s, ob) = Some (List.insert r (get_rights g s ob))"
    by (simp add: graph_add_right)
  have 2: "map_of (subject_edges ?h) s = Some (List.insert ob (get_subject_objects g s))"
    by (auto simp: add_right_def get_subject_objects_def Let_def map_of_map_entry update_conv'
      split: option.splits)
  have 3: "map_of (object_edges ?h) ob = Some (List.insert s (get_object_subjects g ob))"
    by (auto simp: add_right_def get_object_subjects_def Let_def map_of_map_entry update_conv'
      split: option.splits)
  have "add_right ?h s ob r = ?h"
    unfolding add_right_def[of ?h] Let_def normalize_edge_def
    using 1 2 3 by (simp add: map_entry_id)
  then show ?thesis by simp
qed

section \<open>The loop of \<open>add_right\<close> calls, \<open>take\<close>, \<open>grant\<close> and \<open>create\<close>\<close>

lemma graph_add_rights_other:
  "e \<noteq> (s, ob) \<Longrightarrow> map_of (graph (add_rights g s ob rs)) e = map_of (graph g) e"
  unfolding add_rights_def
  by (induct rs arbitrary: g) (simp_all add: graph_add_right)

lemma get_rights_add_rights_other:
  "(s', ob') \<noteq> (s, ob) \<Longrightarrow> get_rights (add_rights g s ob rs) s' ob' = get_rights g s' ob'"
  using graph_add_rights_other[of "(s', ob')" s ob g rs]
  by (simp add: get_rights_def normalize_edge_def)

lemma set_get_rights_add_rights:
  "set (get_rights (add_rights g s ob rs) s ob) = set (get_rights g s ob) \<union> set rs"
  unfolding add_rights_def
  by (induct rs arbitrary: g) (auto simp: get_rights_add_right)

lemma add_rights_Nil: "add_rights g s ob [] = g"
  by (simp add: add_rights_def)

lemma intersection_Nil_iff: "intersection rs other = [] \<longleftrightarrow> set rs \<inter> set other = {}"
  by (auto simp: intersection_def filter_empty_conv)

lemma set_intersection: "set (intersection rs other) = set rs \<inter> set other"
  by (auto simp: intersection_def)

lemma fst_take_op:
  "fst (take_op g s src tgt R) =
     (has_right g s src TAKE \<and> set R \<inter> set (get_rights g src tgt) \<noteq> {})"
  by (auto simp: take_op_def Let_def intersection_Nil_iff)

lemma snd_take_op:
  "snd (take_op g s src tgt R) =
     (if fst (take_op g s src tgt R)
      then add_rights g s tgt (intersection R (get_rights g src tgt)) else g)"
  by (auto simp: take_op_def Let_def add_rights_Nil)

lemma fst_grant:
  "fst (grant g s src tgt R) =
     (has_right g s src GRANT \<and> set R \<inter> set (get_rights g s src) \<noteq> {})"
  by (auto simp: grant_def Let_def intersection_Nil_iff)

lemma snd_grant:
  "snd (grant g s src tgt R) =
     (if fst (grant g s src tgt R)
      then add_rights g tgt src (intersection R (get_rights g s src)) else g)"
  by (auto simp: grant_def Let_def add_rights_Nil)

text \<open>
  Claim C4. \<open>take(subject, source, target, R)\<close> returns true exactly when \<open>subject\<close>
  holds TAKE on \<open>source\<close> and \<open>R\<close> meets the rights \<open>source\<close> holds on \<open>target\<close>.
  On success the rights of \<open>subject\<close> on \<open>target\<close> are those it had together with
  that intersection, taken before the call, and no other edge changes. On a false
  return the graph is unchanged.
\<close>

theorem take_exact:
  "fst (take_op g s src tgt R) =
     (has_right g s src TAKE \<and> set R \<inter> set (get_rights g src tgt) \<noteq> {}) \<and>
   (fst (take_op g s src tgt R) \<longrightarrow>
      set (get_rights (snd (take_op g s src tgt R)) s tgt) =
        set (get_rights g s tgt) \<union> (set R \<inter> set (get_rights g src tgt)) \<and>
      (\<forall>s' ob'. (s', ob') \<noteq> (s, tgt) \<longrightarrow>
         get_rights (snd (take_op g s src tgt R)) s' ob' = get_rights g s' ob' \<and>
         map_of (graph (snd (take_op g s src tgt R))) (s', ob') = map_of (graph g) (s', ob'))) \<and>
   (\<not> fst (take_op g s src tgt R) \<longrightarrow> snd (take_op g s src tgt R) = g)"
  by (simp add: fst_take_op snd_take_op set_get_rights_add_rights set_intersection
      get_rights_add_rights_other graph_add_rights_other Int_commute)

theorem take_exact_witness:
  "fst (take_op (add_right (add_right init_graph ''alice'' ''fileA'' TAKE)
                   ''fileA'' ''fileB'' READ) ''alice'' ''fileA'' ''fileB'' [READ, WRITE]) \<and>
   set (get_rights (snd (take_op (add_right (add_right init_graph ''alice'' ''fileA'' TAKE)
                   ''fileA'' ''fileB'' READ) ''alice'' ''fileA'' ''fileB'' [READ, WRITE]))
          ''alice'' ''fileB'') = {READ} \<and>
   \<not> fst (take_op (add_right (add_right init_graph ''alice'' ''fileA'' TAKE)
                   ''fileA'' ''fileB'' READ) ''alice'' ''fileA'' ''fileB'' [WRITE]) \<and>
   snd (take_op (add_right (add_right init_graph ''alice'' ''fileA'' TAKE)
                   ''fileA'' ''fileB'' READ) ''alice'' ''fileA'' ''fileB'' [WRITE]) =
     add_right (add_right init_graph ''alice'' ''fileA'' TAKE) ''fileA'' ''fileB'' READ"
proof -
  let ?g = "add_right (add_right init_graph ''alice'' ''fileA'' TAKE) ''fileA'' ''fileB'' READ"
  have h: "has_right ?g ''alice'' ''fileA'' TAKE" by (simp add: graph_eval)
  have r1: "get_rights ?g ''fileA'' ''fileB'' = [READ]" by (simp add: graph_eval)
  have r2: "get_rights ?g ''alice'' ''fileB'' = []" by (simp add: graph_eval)
  show ?thesis
    using take_exact[of ?g "''alice''" "''fileA''" "''fileB''" "[READ, WRITE]"]
      take_exact[of ?g "''alice''" "''fileA''" "''fileB''" "[WRITE]"] h r1 r2
    by simp
qed

text \<open>
  Claim C5. When the precondition of \<open>take\<close> or of \<open>grant\<close> is not met (the acting
  subject lacks TAKE or GRANT, or none of the requested rights is held) the operation
  returns false and leaves the graph unchanged. In particular a subject that holds only
  READ on \<open>file\<close> cannot grant WRITE on it: the call returns false and
  \<open>hasRight(other, file, WRITE)\<close> stays false.
\<close>

theorem no_partial_apply:
  "(\<not> has_right g s src TAKE \<or> set R \<inter> set (get_rights g src tgt) = {} \<longrightarrow>
      take_op g s src tgt R = (False, g)) \<and>
   (\<not> has_right g s src GRANT \<or> set R \<inter> set (get_rights g s src) = {} \<longrightarrow>
      grant g s src tgt R = (False, g)) \<and>
   (set (get_rights g s target) = {READ} \<and> \<not> has_right g other target WRITE \<longrightarrow>
      grant g s target other [WRITE] = (False, g) \<and>
      \<not> has_right (snd (grant g s target other [WRITE])) other target WRITE)"
proof -
  have t: "take_op g s src tgt R = (False, g)"
    if "\<not> has_right g s src TAKE \<or> set R \<inter> set (get_rights g src tgt) = {}"
    using that fst_take_op[of g s src tgt R] snd_take_op[of g s src tgt R]
    by (cases "take_op g s src tgt R") auto
  have gr: "grant g a b c R' = (False, g)"
    if "\<not> has_right g a b GRANT \<or> set R' \<inter> set (get_rights g a b) = {}" for a b c R'
    using that fst_grant[of g a b c R'] snd_grant[of g a b c R']
    by (cases "grant g a b c R'") auto
  have "grant g s target other [WRITE] = (False, g)" if "set (get_rights g s target) = {READ}"
    using that by (intro gr) (simp add: has_right_get_rights)
  with t gr show ?thesis by simp
qed

theorem no_partial_apply_witness:
  "set (get_rights (add_right init_graph ''carol'' ''file2'' READ) ''carol'' ''file2'') = {READ} \<and>
   \<not> has_right (add_right init_graph ''carol'' ''file2'' READ) ''dave'' ''file2'' WRITE \<and>
   \<not> has_right (add_right init_graph ''carol'' ''file2'' READ) ''carol'' ''file2'' GRANT \<and>
   \<not> has_right (add_right init_graph ''carol'' ''file2'' READ) ''carol'' ''file2'' TAKE \<and>
   grant (add_right init_graph ''carol'' ''file2'' READ) ''carol'' ''file2'' ''dave'' [WRITE] =
     (False, add_right init_graph ''carol'' ''file2'' READ) \<and>
   take_op (add_right init_graph ''carol'' ''file2'' READ) ''carol'' ''file2'' ''dave'' [WRITE] =
     (False, add_right init_graph ''carol'' ''file2'' READ) \<and>
   \<not> has_right
       (snd (grant (add_right init_graph ''carol'' ''file2'' READ)
               ''carol'' ''file2'' ''dave'' [WRITE])) ''dave'' ''file2'' WRITE"
proof -
  let ?g = "add_right init_graph ''carol'' ''file2'' READ"
  have r: "set (get_rights ?g ''carol'' ''file2'') = {READ}" by (simp add: graph_eval)
  have w: "\<not> has_right ?g ''dave'' ''file2'' WRITE" by (simp add: graph_eval)
  have g: "\<not> has_right ?g ''carol'' ''file2'' GRANT" by (simp add: graph_eval)
  have t: "\<not> has_right ?g ''carol'' ''file2'' TAKE" by (simp add: graph_eval)
  show ?thesis
    using r w g t
      no_partial_apply[where g = ?g and s = "''carol''" and src = "''file2''" and R = "[WRITE]"
        and tgt = "''dave''" and target = "''file2''" and other = "''dave''"]
    by simp
qed

text \<open>
  Claim C6, as stated: after \<open>create(s, o, {R1, ..., Rn})\<close> the rights of \<open>s\<close> on \<open>o\<close>
  are exactly \<open>{R1, ..., Rn}\<close>. It fails where \<open>s\<close> already holds a right on \<open>o\<close>:
  alice holds OWN on file1, and after \<open>create(alice, file1, {READ})\<close> she holds OWN and
  READ.
\<close>

theorem create_exact_counterexample:
  "set (get_rights (snd (create (add_right init_graph ''alice'' ''file1'' OWN)
          ''alice'' ''file1'' (Some [READ]))) ''alice'' ''file1'') \<noteq> set [READ]"
  by (simp add: create_def add_rights_def add_right_def init_graph_def get_rights_def
      normalize_edge_def)

text \<open>
  Claim C6, amended. \<open>create(s, o, R)\<close> returns true, and afterwards the rights of
  \<open>s\<close> on \<open>o\<close> are those held before the call together with \<open>R\<close> (so exactly \<open>R\<close>
  when none was held); with the rights argument omitted they are all six rights.
\<close>

theorem create_adds_rights:
  "fst (create g s ob rights) = True \<and>
   set (get_rights (snd (create g s ob (Some rs))) s ob) = set (get_rights g s ob) \<union> set rs \<and>
   set (get_rights (snd (create g s ob None)) s ob) = {READ, WRITE, EXECUTE, TAKE, GRANT, OWN}"
proof -
  have "r \<in> {READ, WRITE, EXECUTE, TAKE, GRANT, OWN}" for r by (cases r) simp_all
  then show ?thesis
    by (auto simp: create_def set_get_rights_add_rights all_rights_def)
qed

section \<open>Termination of the search\<close>

lemma finite_index_nodes: "finite (index_nodes g)"
  by (auto simp: index_nodes_def)

lemma get_subject_objects_nodes:
  "x \<in> set (get_subject_objects g s) \<Longrightarrow> x \<in> index_nodes g"
proof -
  assume x: "x \<in> set (get_subject_objects g s)"
  then obtain objs where m: "map_of (subject_edges g) s = Some objs" and "x \<in> set objs"
    by (cases "map_of (subject_edges g) s") (auto simp: get_subject_objects_def)
  with map_of_SomeD[OF m] show ?thesis
    by (auto simp: index_nodes_def)
qed

lemma unvisited_decreases:
  assumes "current_subject \<notin> set visited" and "x \<in> set (get_subject_objects g current_subject)"
  shows "unvisited g x (List.insert current_subject visited) < unvisited g current_subject visited"
proof -
  have x: "x \<in> index_nodes g" using assms(2) by (rule get_subject_objects_nodes)
  have "insert x (index_nodes g) - set (List.insert current_subject visited)
        \<subset> insert current_subject (index_nodes g) - set visited"
    using assms(1) x by auto
  then show ?thesis
    unfolding unvisited_def
    by (intro psubset_card_mono) (auto simp: finite_index_nodes)
qed

lemma take_loop_returns:
  "(\<And>x. x \<in> set xs \<Longrightarrow> \<exists>b. search x = Some b) \<Longrightarrow>
   \<exists>b. take_loop search g cur tgt r xs = Some b"
proof (induct xs)
  case Nil
  then show ?case by auto
next
  case (Cons x xs)
  then obtain b where b: "search x = Some b" by (meson list.set_intros(1))
  from Cons obtain b' where "take_loop search g cur tgt r xs = Some b'"
    by (meson list.set_intros(2))
  with b show ?case by auto
qed

lemma dfs_search_returns: "\<exists>b. dfs_search g cur tgt r visited = Some b"
proof (induct "unvisited g cur visited" arbitrary: cur visited rule: less_induct)
  case less
  show ?case
  proof (cases "cur \<in> set visited")
    case True
    then show ?thesis by (subst dfs_search.simps) auto
  next
    case False
    have "\<exists>b. dfs_search g x tgt r (List.insert cur visited) = Some b"
      if "x \<in> set (get_subject_objects g cur)" for x
      using less[OF unvisited_decreases[OF False that]] .
    then obtain b where
      "take_loop (\<lambda>x. dfs_search g x tgt r (List.insert cur visited)) g cur tgt r
         (get_subject_objects g cur) = Some b"
      using take_loop_returns[of "get_subject_objects g cur"
          "\<lambda>x. dfs_search g x tgt r (List.insert cur visited)" g cur tgt r] by blast
    then show ?thesis
      by (subst dfs_search.simps) (auto simp add: Let_def)
  qed
qed

lemma can_access_returns: "\<exists>b. can_access g s ob r = Some b"
  using dfs_search_returns[of g s ob r "[]"]
  by (cases "has_right g s ob r") (auto simp: can_access_def find_access_path_def)

text \<open>
  Claim C7. \<open>canAccess\<close> terminates for every graph and every query: the search
  returns from every current subject and every visited set, and at each recursive call
  the number of identifiers not yet visited is strictly smaller than at its caller.
\<close>

theorem can_access_terminates:
  "(\<exists>b. can_access g s ob r = Some b) \<and>
   (\<exists>b. dfs_search g s ob r visited = Some b) \<and>
   (s \<notin> set visited \<longrightarrow>
      (\<forall>x \<in> set (get_subject_objects g s).
         unvisited g x (List.insert s visited) < unvisited g s visited))"
  using can_access_returns[of g s ob r] dfs_search_returns[of g s ob r visited]
    unvisited_decreases[of s visited _ g]
  by blast

theorem can_access_terminates_witness:
  "''a'' \<notin> set [] \<and>
   ''b'' \<in> set (get_subject_objects (add_right init_graph ''a'' ''b'' TAKE) ''a'') \<and>
   unvisited (add_right init_graph ''a'' ''b'' TAKE) ''b'' (List.insert ''a'' [])
     < unvisited (add_right init_graph ''a'' ''b'' TAKE) ''a'' [] \<and>
   (\<exists>b. can_access (add_right init_graph ''a'' ''b'' TAKE) ''a'' ''c'' READ = Some b)"
proof -
  let ?g = "add_right init_graph ''a'' ''b'' TAKE"
  have m: "''b'' \<in> set (get_subject_objects ?g ''a'')" by (simp add: graph_eval)
  show ?thesis
    using m can_access_terminates[of ?g "''a''" "''c''" READ "[]"] by simp
qed

section \<open>States the program reaches\<close>

lemma graph_remove_right:
  assumes "remove_right g s ob r = Inr g'"
  shows "map_of (graph g') e =
     (if e = (s, ob) then
        (case map_of (graph g) (s, ob) of
           None \<Rightarrow> None
         | Some rs \<Rightarrow> if removeAll r rs = [] then None else Some (removeAll r rs))
      else map_of (graph g) e)"
  using assms
  by (auto simp: remove_right_def normalize_edge_def Let_def map_of_map_entry delete_conv'
      split: if_splits option.splits)

lemma subject_objects_remove_right:
  assumes "remove_right g s ob r = Inr g'"
  shows "get_subject_objects g' s' =
     (if s' = s \<and> emptied g s ob r then removeAll ob (get_subject_objects g s)
      else get_subject_objects g s')"
  using assms
  by (auto simp: remove_right_def normalize_edge_def Let_def map_of_map_entry emptied_def
      get_subject_objects_def split: if_splits option.splits)

lemma object_subjects_remove_right:
  assumes "remove_right g s ob r = Inr g'"
  shows "get_object_subjects g' ob' =
     (if ob' = ob \<and> emptied g s ob r then removeAll s (get_object_subjects g ob)
      else get_object_subjects g ob')"
  using assms
  by (auto simp: remove_right_def normalize_edge_def Let_def map_of_map_entry emptied_def
      get_object_subjects_def split: if_splits option.splits)

lemma get_rights_remove_right:
  assumes "remove_right g s ob r = Inr g'"
  shows "get_rights g' s' ob' =
     (if (s', ob') = (s, ob) then removeAll r (get_rights g s ob) else get_rights g s' ob')"
  unfolding get_rights_def normalize_edge_def graph_remove_right[OF assms]
  by (auto split: option.splits)

lemma remove_right_returns:
  assumes "indexed g"
  shows "\<exists>g'. remove_right g s ob r = Inr g'"
proof (cases "map_of (graph g) (s, ob) = None")
  case True
  then show ?thesis by (simp add: remove_right_def normalize_edge_def)
next
  case False
  with assms have "ob \<in> set (get_subject_objects g s)" "s \<in> set (get_object_subjects g ob)"
    by (auto simp: indexed_def)
  then have "map_of (subject_edges g) s \<noteq> None" "map_of (object_edges g) ob \<noteq> None"
    by (cases "map_of (subject_edges g) s"; cases "map_of (object_edges g) ob";
        simp add: get_subject_objects_def get_object_subjects_def)+
  then show ?thesis
    by (auto simp: remove_right_def normalize_edge_def Let_def)
qed

lemma remove_right_absent:
  "map_of (graph g) (s, ob) = None \<Longrightarrow> remove_right g s ob r = Inr g"
  by (simp add: remove_right_def normalize_edge_def)

lemma remove_right_not_held:
  assumes "nonempty_edges g" and "\<not> has_right g s ob r"
  shows "remove_right g s ob r = Inr g"
proof (cases "map_of (graph g) (s, ob)")
  case None
  then show ?thesis by (rule remove_right_absent)
next
  case (Some rs)
  with assms(2) have "r \<notin> set rs" by (simp add: has_right_def normalize_edge_def)
  then have eq: "removeAll r rs = rs" by simp
  from Some assms(1) have "rs \<noteq> []" by (auto simp: nonempty_edges_def)
  with Some eq show ?thesis
    by (simp add: remove_right_def normalize_edge_def Let_def map_of_map_entry map_entry_id)
qed

lemma indexed_add_right: "indexed g \<Longrightarrow> indexed (add_right g s ob r)"
  by (auto simp: indexed_def graph_add_right get_subject_objects_add_right
      get_object_subjects_add_right split: if_splits)

lemma nonempty_add_right: "nonempty_edges g \<Longrightarrow> nonempty_edges (add_right g s ob r)"
  by (auto simp: nonempty_edges_def graph_add_right List.insert_def)

lemma indexed_add_rights: "indexed g \<Longrightarrow> indexed (add_rights g s ob rs)"
  unfolding add_rights_def by (induct rs arbitrary: g) (simp_all add: indexed_add_right)

lemma nonempty_add_rights: "nonempty_edges g \<Longrightarrow> nonempty_edges (add_rights g s ob rs)"
  unfolding add_rights_def by (induct rs arbitrary: g) (simp_all add: nonempty_add_right)

lemma indexed_remove_right:
  assumes "indexed g" and "remove_right g s ob r = Inr g'"
  shows "indexed g'"
  using assms(1)
  unfolding indexed_def graph_remove_right[OF assms(2)]
    subject_objects_remove_right[OF assms(2)] object_subjects_remove_right[OF assms(2)]
  by (auto simp: emptied_def split: if_splits option.splits)

lemma nonempty_remove_right:
  assumes "nonempty_edges g" and "remove_right g s ob r = Inr g'"
  shows "nonempty_edges g'"
  using assms(1)
  unfolding nonempty_edges_def graph_remove_right[OF assms(2)]
  by (auto split: if_splits option.splits)

lemma map_of_deletes:
  "map_of (foldl (\<lambda>d e. AList.delete e d) al ks) k =
     (if k \<in> set ks then None else map_of al k)"
  by (induct ks arbitrary: al) (auto simp: delete_conv')

lemma delete_object_graph:
  assumes "delete_object m s ob = Some (Inr (b, m'))"
  shows "subject_edges (access_graph m') = subject_edges (access_graph m) \<and>
         object_edges (access_graph m') = object_edges (access_graph m) \<and>
         (\<forall>e. map_of (graph (access_graph m')) e = None \<or>
              map_of (graph (access_graph m')) e = map_of (graph (access_graph m)) e)"
  using assms
  by (auto simp: delete_object_def Let_def map_of_deletes
      split: sum.splits option.splits if_splits bind_splits prod.splits)

lemma indexed_delete_object:
  assumes "indexed (access_graph m)" and "delete_object m s ob = Some (Inr (b, m'))"
  shows "indexed (access_graph m')"
  using assms(1) delete_object_graph[OF assms(2)]
  unfolding indexed_def get_subject_objects_def get_object_subjects_def
  by metis

lemma nonempty_delete_object:
  assumes "nonempty_edges (access_graph m)" and "delete_object m s ob = Some (Inr (b, m'))"
  shows "nonempty_edges (access_graph m')"
  using assms(1) delete_object_graph[OF assms(2)]
  unfolding nonempty_edges_def
  by (metis option.distinct(1))

lemma reachable_invariant: "reachable g \<Longrightarrow> indexed g \<and> nonempty_edges g"
proof (induct rule: reachable.induct)
  case init
  show ?case by (simp add: indexed_def nonempty_edges_def init_graph_def)
next
  case (add_right g s ob r)
  then show ?case by (simp add: indexed_add_right nonempty_add_right)
next
  case (remove_right g s ob r g')
  then show ?case using indexed_remove_right nonempty_remove_right by blast
next
  case (take_op g s src tgt rs)
  then show ?case by (simp add: snd_take_op indexed_add_rights nonempty_add_rights)
next
  case (grant g s src tgt rs)
  then show ?case by (simp add: snd_grant indexed_add_rights nonempty_add_rights)
next
  case (create g s ob rso)
  then show ?case by (simp add: create_def indexed_add_rights nonempty_add_rights)
next
  case (delete_object m s ob b m')
  then show ?case using indexed_delete_object nonempty_delete_object by blast
qed

section \<open>Removing the rights of an edge\<close>

lemma remove_op_cleanup:
  assumes "indexed g" and "nonempty_edges g"
    and "(map_of (graph g) (s, ob) = None \<and> ob \<notin> set (get_subject_objects g s) \<and>
          s \<notin> set (get_object_subjects g ob)) \<or>
         (\<exists>held. map_of (graph g) (s, ob) = Some held \<and> set held \<subseteq> set rs)"
  shows "\<exists>g'. remove_op g s ob rs = Inr g' \<and> map_of (graph g') (s, ob) = None \<and>
           ob \<notin> set (get_subject_objects g' s) \<and> s \<notin> set (get_object_subjects g' ob)"
  using assms
proof (induct rs arbitrary: g)
  case Nil
  then show ?case by (auto simp: nonempty_edges_def)
next
  case (Cons r rs)
  obtain g1 where g1: "remove_right g s ob r = Inr g1"
    using remove_right_returns[OF Cons.prems(1)] by blast
  have i1: "indexed g1" using Cons.prems(1) g1 by (rule indexed_remove_right)
  have n1: "nonempty_edges g1" using Cons.prems(2) g1 by (rule nonempty_remove_right)
  have "(map_of (graph g1) (s, ob) = None \<and> ob \<notin> set (get_subject_objects g1 s) \<and>
          s \<notin> set (get_object_subjects g1 ob)) \<or>
         (\<exists>held. map_of (graph g1) (s, ob) = Some held \<and> set held \<subseteq> set rs)"
  proof (cases "map_of (graph g) (s, ob)")
    case None
    then have "g1 = g" using g1 by (simp add: remove_right_absent)
    with None Cons.prems(3) show ?thesis by simp
  next
    case (Some held)
    with Cons.prems(3) have sub: "set held \<subseteq> set (r # rs)" by simp
    show ?thesis
    proof (cases "removeAll r held = []")
      case True
      then have "emptied g s ob r" using Some by (simp add: emptied_def)
      then show ?thesis
        using Some True
        by (simp add: graph_remove_right[OF g1] subject_objects_remove_right[OF g1]
            object_subjects_remove_right[OF g1])
    next
      case False
      from sub have "set (removeAll r held) \<subseteq> set rs" by auto
      with False Some show ?thesis
        by (simp add: graph_remove_right[OF g1])
    qed
  qed
  from Cons.hyps[OF i1 n1 this] g1 show ?case by simp
qed

text \<open>
  Claim C8. After all rights on an edge \<open>(s, o)\<close> have been removed with
  \<open>removeRight\<close>, \<open>getRights(s, o)\<close> is empty, the edge is no longer stored, \<open>o\<close> is
  not in \<open>getSubjectObjects(s)\<close> and \<open>s\<close> is not in \<open>getObjectSubjects(o)\<close>. A
  \<open>removeRight\<close> of a right that is not held, on a stored edge or on none, raises
  nothing and changes nothing.
\<close>

theorem edge_cleanup:
  assumes "reachable g"
  shows "(get_rights g s ob \<noteq> [] \<and> set (get_rights g s ob) \<subseteq> set rs \<longrightarrow>
           (\<exists>g'. remove_op g s ob rs = Inr g' \<and> get_rights g' s ob = [] \<and>
                 map_of (graph g') (s, ob) = None \<and>
                 ob \<notin> set (get_subject_objects g' s) \<and>
                 s \<notin> set (get_object_subjects g' ob))) \<and>
         (\<not> has_right g s ob r \<longrightarrow> remove_right g s ob r = Inr g)"
proof (intro conjI impI)
  from assms have inv: "indexed g" "nonempty_edges g" by (simp_all add: reachable_invariant)
  {
    assume "get_rights g s ob \<noteq> [] \<and> set (get_rights g s ob) \<subseteq> set rs"
    then have "\<exists>held. map_of (graph g) (s, ob) = Some held \<and> set held \<subseteq> set rs"
      by (cases "map_of (graph g) (s, ob)") (auto simp: get_rights_def normalize_edge_def)
    then have "\<exists>g'. remove_op g s ob rs = Inr g' \<and> map_of (graph g') (s, ob) = None \<and>
           ob \<notin> set (get_subject_objects g' s) \<and> s \<notin> set (get_object_subjects g' ob)"
      using remove_op_cleanup[OF inv] by blast
    then show "\<exists>g'. remove_op g s ob rs = Inr g' \<and> get_rights g' s ob = [] \<and>
                 map_of (graph g') (s, ob) = None \<and>
                 ob \<notin> set (get_subject_objects g' s) \<and>
                 s \<notin> set (get_object_subjects g' ob)"
      by (auto simp: get_rights_def normalize_edge_def)
  }
  {
    assume "\<not> has_right g s ob r"
    with inv(2) show "remove_right g s ob r = Inr g" by (rule remove_right_not_held)
  }
qed

theorem edge_cleanup_witness:
  "reachable (snd (create init_graph ''alice'' ''file1'' (Some [READ, WRITE]))) \<and>
   get_rights (snd (create init_graph ''alice'' ''file1'' (Some [READ, WRITE])))
     ''alice'' ''file1'' \<noteq> [] \<and>
   set (get_rights (snd (create init_graph ''alice'' ''file1'' (Some [READ, WRITE])))
     ''alice'' ''file1'') \<subseteq> set [READ, WRITE] \<and>
   (\<exists>g'. remove_op (snd (create init_graph ''alice'' ''file1'' (Some [READ, WRITE])))
            ''alice'' ''file1'' [READ, WRITE] = Inr g' \<and>
         get_rights g' ''alice'' ''file1'' = [] \<and>
         ''file1'' \<notin> set (get_subject_objects g' ''alice'') \<and>
         ''alice'' \<notin> set (get_object_subjects g' ''file1'')) \<and>
   \<not> has_right (snd (create init_graph ''alice'' ''file1'' (Some [READ, WRITE])))
     ''alice'' ''file1'' OWN \<and>
   remove_right (snd (create init_graph ''alice'' ''file1'' (Some [READ, WRITE])))
     ''alice'' ''file1'' OWN = Inr (snd (create init_graph ''alice'' ''file1'' (Some [READ, WRITE])))"
proof -
  let ?g = "snd (create init_graph ''alice'' ''file1'' (Some [READ, WRITE]))"
  have r: "reachable ?g" by (rule reachable.create) (rule reachable.init)
  have a: "get_rights ?g ''alice'' ''file1'' \<noteq> []" by (simp add: graph_eval)
  have b: "set (get_rights ?g ''alice'' ''file1'') \<subseteq> set [READ, WRITE]"
    by (simp add: graph_eval)
  have c: "\<not> has_right ?g ''alice'' ''file1'' OWN" by (simp add: graph_eval)
  show ?thesis
    using r a b c
      edge_cleanup[OF r, of "''alice''" "''file1''" "[READ, WRITE]" OWN]
    by blast
qed

section \<open>The indices and the edge map\<close>

lemma mirror_init: "mirror init_graph"
  by (simp add: mirror_def init_graph_def get_subject_objects_def get_object_subjects_def
      get_rights_def)

lemma mirror_add_right: "mirror g \<Longrightarrow> mirror (add_right g s ob r)"
  unfolding mirror_def get_subject_objects_add_right get_object_subjects_add_right
    get_rights_add_right
  by (auto simp: List.insert_def)

lemma mirror_add_rights: "mirror g \<Longrightarrow> mirror (add_rights g s ob rs)"
  unfolding add_rights_def by (induct rs arbitrary: g) (simp_all add: mirror_add_right)

lemma mirror_remove_right:
  assumes "mirror g" and "nonempty_edges g" and "remove_right g s ob r = Inr g'"
  shows "mirror g'"
proof -
  have e: "emptied g s ob r \<longleftrightarrow> get_rights g s ob \<noteq> [] \<and> removeAll r (get_rights g s ob) = []"
    using assms(2)
    by (cases "map_of (graph g) (s, ob)")
      (auto simp: emptied_def get_rights_def normalize_edge_def nonempty_edges_def)
  show ?thesis
    using assms(1)
    unfolding mirror_def subject_objects_remove_right[OF assms(3)]
      object_subjects_remove_right[OF assms(3)] get_rights_remove_right[OF assms(3)] e
    by (auto split: if_splits)
qed

lemma mirror_core_operations:
  assumes "mirror g" and "nonempty_edges g"
  shows "mirror (add_right g s ob r) \<and> mirror (snd (take_op g s src tgt rs)) \<and>
         mirror (snd (grant g s src tgt rs)) \<and> mirror (snd (create g s ob rso)) \<and>
         (\<forall>g'. remove_right g s ob r = Inr g' \<longrightarrow> mirror g')"
  using assms mirror_remove_right[of g s ob r]
  by (simp add: mirror_add_right mirror_add_rights snd_take_op snd_grant create_def)

text \<open>
  Claim C1. The two indices are to mirror the edge map after every mutating operation,
  the bulk deletion of \<open>OperationsModule.delete_object\<close> included. The mutators of
  \<open>AccessGraph\<close> keep them so (\<open>mirror_core_operations\<close>). \<open>delete_object\<close> does not:
  alice creates f1 and deletes it; the call returns true, the edge is gone, and f1 is
  still listed for alice, and alice for f1.
\<close>

theorem delete_object_stale_index:
  "let g = snd (create init_graph ''alice'' ''f1'' None);
       m = \<lparr>object_identifier =
              \<lparr>objects = [(''f1'', \<lparr>obj_id = ''f1'', obj_name = ''report'', obj_type = ''file'',
                           obj_owner = ''alice'', obj_parent_id = None,
                           obj_created_at = ''0''\<rparr>)],
               name_to_id = [(''report'', ''f1'')]\<rparr>,
            access_graph = g, file_contents = [(''f1'', [])]\<rparr>
   in mirror g \<and>
      (case delete_object m ''alice'' ''f1'' of
         Some (Inr (b, m')) \<Rightarrow>
           b \<and> reachable (access_graph m') \<and>
           get_rights (access_graph m') ''alice'' ''f1'' = [] \<and>
           ''f1'' \<in> set (get_subject_objects (access_graph m') ''alice'') \<and>
           ''alice'' \<in> set (get_object_subjects (access_graph m') ''f1'') \<and>
           \<not> mirror (access_graph m')
       | _ \<Rightarrow> False)"
proof -
  define g where "g = snd (create init_graph ''alice'' ''f1'' None)"
  define m where "m = \<lparr>object_identifier =
              \<lparr>objects = [(''f1'', \<lparr>obj_id = ''f1'', obj_name = ''report'', obj_type = ''file'',
                           obj_owner = ''alice'', obj_parent_id = None,
                           obj_created_at = ''0''\<rparr>)],
               name_to_id = [(''report'', ''f1'')]\<rparr>,
            access_graph = g, file_contents = [(''f1'', [])]\<rparr>"
  have mg: "mirror g"
    unfolding g_def by (simp add: create_def mirror_add_rights mirror_init)
  have rg: "reachable g"
    unfolding g_def by (rule reachable.create) (rule reachable.init)
  have gv: "g = \<lparr>graph = [((''alice'', ''f1''), [OWN, GRANT, TAKE, EXECUTE, WRITE, READ])],
                 subject_edges = [(''alice'', [''f1''])],
                 object_edges = [(''f1'', [''alice''])]\<rparr>"
    unfolding g_def
    by (simp add: create_def all_rights_def add_rights_def add_right_def init_graph_def
        normalize_edge_def)
  obtain m' where d: "delete_object m ''alice'' ''f1'' = Some (Inr (True, m'))"
    and gm': "access_graph m' = g\<lparr>graph := []\<rparr>"
    unfolding m_def gv
    by (simp add: delete_object_def get_object_def registry_delete_object_def
        get_object_id_def Let_def)
  have rm: "reachable (access_graph m')"
    using reachable.delete_object[of m "''alice''" "''f1''" True m'] rg d
    by (simp add: m_def)
  have s1: "get_rights (access_graph m') ''alice'' ''f1'' = []"
    by (simp add: gm' get_rights_def)
  have s2: "''f1'' \<in> set (get_subject_objects (access_graph m') ''alice'')"
    by (simp add: gm' gv get_subject_objects_def)
  have s3: "''alice'' \<in> set (get_object_subjects (access_graph m') ''f1'')"
    by (simp add: gm' gv get_object_subjects_def)
  have nm: "\<not> mirror (access_graph m')"
    using s1 s2 unfolding mirror_def by blast
  show ?thesis
    using mg d rm s1 s2 s3 nm
    unfolding g_def[symmetric] m_def[symmetric] Let_def
    by simp
qed

section \<open>The search\<close>

lemma set_all_objects_aux:
  "set (foldl (\<lambda>acc ((s, ob), rights). List.insert ob acc) acc0 xs) =
     set acc0 \<union> (snd \<circ> fst) ` set xs"
  by (induct xs arbitrary: acc0) (auto split: prod.splits)

lemma set_all_objects: "set (all_objects g) = (snd \<circ> fst) ` set (graph g)"
  by (simp add: all_objects_def set_all_objects_aux)

lemma grant_loop_iff:
  "grant_loop g tgt r \<longleftrightarrow>
     (\<exists>i \<in> set (all_objects g). \<exists>gs \<in> set (get_object_subjects g i).
        has_right g gs i GRANT \<and> has_right g i tgt r)"
  by (simp add: grant_loop_def list_ex_iff)

lemma grant_loop_true:
  assumes "indexed g" and "has_right g gs i GRANT" and "has_right g i tgt r"
  shows "grant_loop g tgt r"
proof -
  from has_right_stored[OF assms(2)] obtain rs where
    rs: "((gs, i), rs) \<in> set (graph g)" "map_of (graph g) (gs, i) = Some rs" by blast
  from rs(1) have "i \<in> set (all_objects g)"
    by (force simp: set_all_objects)
  moreover from rs(2) assms(1) have "gs \<in> set (get_object_subjects g i)"
    by (auto simp: indexed_def)
  ultimately show ?thesis using assms(2,3) by (auto simp: grant_loop_iff)
qed

lemma dfs_search_grant:
  assumes "grant_loop g tgt r" and "cur \<notin> set visited"
  shows "dfs_search g cur tgt r visited = Some True"
proof -
  obtain b where
    "take_loop (\<lambda>x. dfs_search g x tgt r (List.insert cur visited)) g cur tgt r
         (get_subject_objects g cur) = Some b"
    using take_loop_returns[of "get_subject_objects g cur"
          "\<lambda>x. dfs_search g x tgt r (List.insert cur visited)" g cur tgt r]
      dfs_search_returns by blast
  with assms show ?thesis
    by (subst dfs_search.simps) (auto simp add: Let_def)
qed

lemma can_access_grant:
  assumes "indexed g" and "has_right g gs i GRANT" and "has_right g i ob r"
  shows "can_access g s ob r = Some True"
proof -
  have "grant_loop g ob r" using assms by (rule grant_loop_true)
  then have "dfs_search g s ob r [] = Some True" by (rule dfs_search_grant) simp
  then show ?thesis by (simp add: can_access_def find_access_path_def)
qed

text \<open>
  Claim C9. Whenever \<open>hasRight(s, o, r)\<close> is true, \<open>canAccess(s, o, r)\<close> returns true:
  a right that is held directly is always reported as reachable.
\<close>

theorem direct_implies_reachable:
  "has_right g s ob r \<Longrightarrow> can_access g s ob r = Some True"
  by (simp add: can_access_def)

theorem direct_implies_reachable_witness:
  "has_right (snd (create init_graph ''alice'' ''file1'' None)) ''alice'' ''file1'' READ \<and>
   can_access (snd (create init_graph ''alice'' ''file1'' None)) ''alice'' ''file1'' READ
     = Some True"
proof -
  have h: "has_right (snd (create init_graph ''alice'' ''file1'' None)) ''alice'' ''file1'' READ"
    by (simp add: create_def all_rights_def add_rights_def add_right_def init_graph_def
        has_right_def normalize_edge_def)
  show ?thesis using h direct_implies_reachable [OF h] by simp
qed

text \<open>
  Claim C3. If some subject \<open>G\<close> holds GRANT on some \<open>I\<close>, and \<open>I\<close> holds \<open>r\<close> on
  \<open>O\<close>, then \<open>canAccess(S, O, r)\<close> returns true for every subject \<open>S\<close>, also one
  that no edge mentions: the grant branch of the search does not look at \<open>S\<close>.
\<close>

theorem grant_branch_ignores_subject:
  assumes "reachable g" and "has_right g gs i GRANT" and "has_right g i ob r"
  shows "can_access g s ob r = Some True"
proof -
  from assms(1) have "indexed g" by (simp add: reachable_invariant)
  then show ?thesis using assms(2,3) by (rule can_access_grant)
qed

theorem grant_branch_ignores_subject_witness:
  "reachable (add_right (add_right init_graph ''g'' ''i'' GRANT) ''i'' ''y'' READ) \<and>
   has_right (add_right (add_right init_graph ''g'' ''i'' GRANT) ''i'' ''y'' READ)
     ''g'' ''i'' GRANT \<and>
   has_right (add_right (add_right init_graph ''g'' ''i'' GRANT) ''i'' ''y'' READ)
     ''i'' ''y'' READ \<and>
   can_access (add_right (add_right init_graph ''g'' ''i'' GRANT) ''i'' ''y'' READ)
     ''nobody'' ''y'' READ = Some True"
proof -
  let ?g = "add_right (add_right init_graph ''g'' ''i'' GRANT) ''i'' ''y'' READ"
  have r: "reachable ?g" by (intro reachable.add_right reachable.init)
  have h1: "has_right ?g ''g'' ''i'' GRANT" by (simp add: graph_eval)
  have h2: "has_right ?g ''i'' ''y'' READ" by (simp add: graph_eval)
  show ?thesis
    using r h1 h2 grant_branch_ignores_subject[OF r h1 h2, of "''nobody''"] by simp
qed

text \<open>
  Claim C2, as stated: in a graph of two disjoint subgraphs, with \<open>X\<close> in one and \<open>Y\<close>
  in the other, \<open>canAccess(X, Y, r)\<close> is false for every right. It fails: x and z form
  one subgraph, g, i and y the other, where g holds GRANT on i and i holds READ on y;
  \<open>canAccess(x, y, READ)\<close> returns true through the grant branch.
\<close>

theorem disjoint_subgraphs_counterexample:
  "disjoint_subgraphs
     (add_right (add_right (add_right init_graph ''x'' ''z'' READ) ''g'' ''i'' GRANT)
        ''i'' ''y'' READ) [''x'', ''z''] \<and>
   ''x'' \<in> set [''x'', ''z''] \<and> ''y'' \<notin> set [''x'', ''z''] \<and>
   can_access
     (add_right (add_right (add_right init_graph ''x'' ''z'' READ) ''g'' ''i'' GRANT)
        ''i'' ''y'' READ) ''x'' ''y'' READ = Some True"
proof -
  let ?g = "add_right (add_right (add_right init_graph ''x'' ''z'' READ) ''g'' ''i'' GRANT)
        ''i'' ''y'' READ"
  have i: "indexed ?g"
    by (intro indexed_add_right) (simp add: indexed_def init_graph_def)
  have h1: "has_right ?g ''g'' ''i'' GRANT" by (simp add: graph_eval)
  have h2: "has_right ?g ''i'' ''y'' READ" by (simp add: graph_eval)
  have d: "disjoint_subgraphs ?g [''x'', ''z'']"
    by (simp add: disjoint_subgraphs_def graph_eval)
  show ?thesis
    using d can_access_grant[OF i h1 h2, of "''x''"] by simp
qed

lemma has_right_same_part:
  assumes "disjoint_subgraphs g part" and "has_right g a b r"
  shows "(a \<in> set part) = (b \<in> set part)"
proof -
  from has_right_stored[OF assms(2)] obtain rs where "((a, b), rs) \<in> set (graph g)" by blast
  with assms(1) show ?thesis
    by (auto simp: disjoint_subgraphs_def list_all_iff)
qed

lemma take_loop_False:
  "(\<And>x. x \<in> set xs \<Longrightarrow> has_right g cur x TAKE \<Longrightarrow>
      \<not> has_right g x tgt r \<and> search x = Some False) \<Longrightarrow>
   take_loop search g cur tgt r xs = Some False"
  by (induct xs) auto

lemma dfs_search_separated:
  assumes "disjoint_subgraphs g part" and "tgt \<notin> set part" and "\<not> grant_loop g tgt r"
  shows "cur \<in> set part \<Longrightarrow> dfs_search g cur tgt r visited = Some False"
proof (induct "unvisited g cur visited" arbitrary: cur visited rule: less_induct)
  case less
  show ?case
  proof (cases "cur \<in> set visited")
    case True
    then show ?thesis by (subst dfs_search.simps) simp
  next
    case False
    have direct: "\<not> has_right g cur tgt r"
      using has_right_same_part[OF assms(1), of cur tgt r] less.prems assms(2) by blast
    have "take_loop (\<lambda>x. dfs_search g x tgt r (List.insert cur visited)) g cur tgt r
         (get_subject_objects g cur) = Some False"
    proof (rule take_loop_False)
      fix x
      assume x: "x \<in> set (get_subject_objects g cur)" and t: "has_right g cur x TAKE"
      from has_right_same_part[OF assms(1) t] less.prems have xp: "x \<in> set part" by simp
      then have "\<not> has_right g x tgt r"
        using has_right_same_part[OF assms(1), of x tgt r] assms(2) by blast
      moreover have "dfs_search g x tgt r (List.insert cur visited) = Some False"
        using less.hyps[OF unvisited_decreases[OF False x] xp] .
      ultimately show "\<not> has_right g x tgt r \<and>
          dfs_search g x tgt r (List.insert cur visited) = Some False" by simp
    qed
    with False direct assms(3) show ?thesis
      by (subst dfs_search.simps) (simp add: Let_def)
  qed
qed

lemma accessible_loop_set:
  "\<exists>ys. accessible_loop g s r acc xs = Some ys \<and>
        set ys = set acc \<union> {x \<in> set xs. can_access g s x r = Some True}"
proof (induct xs arbitrary: acc)
  case Nil
  then show ?case by simp
next
  case (Cons x xs)
  obtain b where b: "can_access g s x r = Some b"
    using can_access_returns by blast
  from Cons[of "if b then acc @ [x] else acc"] b show ?case
    by (cases b) auto
qed

text \<open>
  Claim C2, amended. In a graph of two disjoint subgraphs, with \<open>X\<close> in one and \<open>Y\<close> in
  the other, where moreover the grant branch finds no identifier that holds \<open>r\<close> on
  \<open>Y\<close> and on which some subject holds GRANT, \<open>canAccess(X, Y, r)\<close> returns false and
  \<open>getAccessibleObjects(X, r)\<close> returns a list without \<open>Y\<close>.
\<close>

theorem separated_unreachable:
  assumes "disjoint_subgraphs g part" and "x \<in> set part" and "y \<notin> set part"
    and "\<not> grant_loop g y r"
  shows "can_access g x y r = Some False \<and>
         (\<exists>ys. get_accessible_objects g x r = Some ys \<and> y \<notin> set ys)"
proof -
  have d: "\<not> has_right g x y r"
    using has_right_same_part[OF assms(1), of x y r] assms(2,3) by blast
  have c: "can_access g x y r = Some False"
    using dfs_search_separated[OF assms(1,3,4,2), of "[]"] d
    by (simp add: can_access_def find_access_path_def)
  from accessible_loop_set[of g x r "[]" "all_nodes g"] c show ?thesis
    by (auto simp: get_accessible_objects_def)
qed

theorem separated_unreachable_witness:
  "disjoint_subgraphs
     (add_right (add_right (add_right init_graph ''x'' ''z'' READ) ''g'' ''i'' GRANT)
        ''i'' ''y'' READ) [''x'', ''z''] \<and>
   ''x'' \<in> set [''x'', ''z''] \<and> ''y'' \<notin> set [''x'', ''z''] \<and>
   \<not> grant_loop
     (add_right (add_right (add_right init_graph ''x'' ''z'' READ) ''g'' ''i'' GRANT)
        ''i'' ''y'' READ) ''y'' WRITE \<and>
   can_access
     (add_right (add_right (add_right init_graph ''x'' ''z'' READ) ''g'' ''i'' GRANT)
        ''i'' ''y'' READ) ''x'' ''y'' WRITE = Some False"
proof -
  let ?g = "add_right (add_right (add_right init_graph ''x'' ''z'' READ) ''g'' ''i'' GRANT)
        ''i'' ''y'' READ"
  have d: "disjoint_subgraphs ?g [''x'', ''z'']"
    by (simp add: disjoint_subgraphs_def graph_eval)
  have x: "''x'' \<in> set [''x'', ''z'']" by simp
  have y: "''y'' \<notin> set [''x'', ''z'']" by simp
  have n: "\<not> grant_loop ?g ''y'' WRITE"
    by (simp add: grant_loop_def all_objects_def graph_eval)
  show ?thesis
    using d n separated_unreachable[OF d x y n] by simp
qed

end
